theory Spec2Isabelle
  imports Main
begin

section \<open>Loops over sequences\<close>

text \<open>
  Every function of \<^verbatim>\<open>Loops03For.py\<close> collects its results in a list that
  starts empty and grows by \<^verbatim>\<open>append\<close> inside a \<^verbatim>\<open>for\<close> loop. Each loop is
  a recursive function over the sequence that is iterated, carrying the
  accumulator; the function of the source calls it with the empty accumulator.
\<close>

subsection \<open>iterate_list\<close>

fun iterate_list_loop :: "'a list \<Rightarrow> 'a list \<Rightarrow> 'a list" where
  "iterate_list_loop [] out = out"
| "iterate_list_loop (x # xs) out = iterate_list_loop xs (out @ [x])"

definition iterate_list :: "'a list \<Rightarrow> 'a list" where
  "iterate_list xs = iterate_list_loop xs []"

subsection \<open>with_zip\<close>

text \<open>
  Python's \<^verbatim>\<open>zip\<close> stops with the shorter argument, as \<^const>\<open>zip\<close> does.
\<close>

fun with_zip_loop :: "('a \<times> 'b) list \<Rightarrow> ('a \<times> 'b) list \<Rightarrow> ('a \<times> 'b) list" where
  "with_zip_loop [] pairs = pairs"
| "with_zip_loop ((n, a) # rest) pairs = with_zip_loop rest (pairs @ [(n, a)])"

definition with_zip :: "'a list \<Rightarrow> 'b list \<Rightarrow> ('a \<times> 'b) list" where
  "with_zip names ages = with_zip_loop (zip names ages) []"

subsection \<open>find_first_even: break and else\<close>

text \<open>
  The loop returns the value of \<^verbatim>\<open>first\<close> and whether it was left by
  \<^verbatim>\<open>break\<close>. The \<^verbatim>\<open>else\<close> branch of a \<^verbatim>\<open>for\<close> runs when the loop was not
  left by \<^verbatim>\<open>break\<close>. Python's \<^verbatim>\<open>n % 2 == 0\<close> on integers of either sign is
  \<open>n mod 2 = 0\<close>.
\<close>

fun find_first_even_loop :: "int list \<Rightarrow> int option \<Rightarrow> int option \<times> bool" where
  "find_first_even_loop [] first = (first, False)"
| "find_first_even_loop (n # ns) first =
     (if n mod 2 = 0 then (Some n, True) else find_first_even_loop ns first)"

definition find_first_even :: "int list \<Rightarrow> int option \<times> bool" where
  "find_first_even nums =
     (let first = None;
          else_ran = False;
          (first, broke) = find_first_even_loop nums first;
          else_ran = (if broke then else_ran else True)
      in (first, else_ran))"

subsection \<open>odds_only: continue\<close>

fun odds_only_loop :: "int list \<Rightarrow> int list \<Rightarrow> int list" where
  "odds_only_loop [] out = out"
| "odds_only_loop (n # ns) out =
     (if n mod 2 = 0 then odds_only_loop ns out else odds_only_loop ns (out @ [n]))"

definition odds_only :: "int list \<Rightarrow> int list" where
  "odds_only nums = odds_only_loop nums []"

subsection \<open>range, nested loops and comprehensions\<close>

text \<open>
  \<^verbatim>\<open>range(start, stop)\<close> with the step 1 counts up from \<^verbatim>\<open>start\<close> while
  the value is below \<^verbatim>\<open>stop\<close>; \<^verbatim>\<open>range(n)\<close> is \<^verbatim>\<open>range(0, n)\<close>. It is empty
  when \<^verbatim>\<open>stop\<close> is not above \<^verbatim>\<open>start\<close>, so also for a negative \<^verbatim>\<open>n\<close>.
\<close>

function range_py :: "int \<Rightarrow> int \<Rightarrow> int list" where
  "range_py start stop = (if start < stop then start # range_py (start + 1) stop else [])"
  by pat_completeness auto
termination
  by (relation "measure (\<lambda>(start, stop). nat (stop - start))") auto

declare range_py.simps [simp del]

fun row_loop :: "int \<Rightarrow> int list \<Rightarrow> int list \<Rightarrow> int list" where
  "row_loop i [] row = row"
| "row_loop i (j # js) row = row_loop i js (row @ [i * j])"

fun table_loop :: "int \<Rightarrow> int list \<Rightarrow> int list list \<Rightarrow> int list list" where
  "table_loop n [] table = table"
| "table_loop n (i # is) table =
     table_loop n is (table @ [row_loop i (range_py 1 (n + 1)) []])"

definition multiplication_table :: "int \<Rightarrow> int list list" where
  "multiplication_table n = table_loop n (range_py 1 (n + 1)) []"

definition squares_until :: "int \<Rightarrow> int list" where
  "squares_until n = [i * i. i \<leftarrow> range_py 0 n]"

definition even_squares_until :: "int \<Rightarrow> int list" where
  "even_squares_until n = [i * i. i \<leftarrow> range_py 0 n, i mod 2 = 0]"

section \<open>The text file\<close>

subsection \<open>Paths, the file system and its errors\<close>

text \<open>
  A path is the list of its components below a base directory (the working
  directory for a relative path, the root for an absolute one); the empty list
  is the base directory itself, and \<^verbatim>\<open>Path.parent\<close> drops the last component
  (the parent of the base directory is the base directory). Components are
  plain names: \<^verbatim>\<open>..\<close> and symbolic links are outside the model.

  The file system maps a path to what lies there: a directory, or a regular
  file with its text. A file holds text, the characters that decoding it as
  UTF-8 gives; permissions and the space on the disk are not part of the
  state, so the errors left are those of the shape of the tree, and each is a
  value of \<open>os_error\<close>, named after the exception that Python raises.
\<close>

type_synonym path = "string list"

datatype node = File string | Dir

type_synonym filesystem = "path \<rightharpoonup> node"

datatype os_error =
  FileExistsError | FileNotFoundError | NotADirectoryError | IsADirectoryError

definition parent :: "path \<Rightarrow> path" where
  "parent p = butlast p"

definition is_dir :: "filesystem \<Rightarrow> path \<Rightarrow> bool" where
  "is_dir fs p = (fs p = Some Dir)"

definition is_file :: "filesystem \<Rightarrow> path \<Rightarrow> bool" where
  "is_file fs p = (case fs p of Some (File _) \<Rightarrow> True | _ \<Rightarrow> False)"

definition file_text :: "filesystem \<Rightarrow> path \<Rightarrow> string" where
  "file_text fs p = (case fs p of Some (File t) \<Rightarrow> t | _ \<Rightarrow> [])"

text \<open>
  \<^verbatim>\<open>os.mkdir\<close> makes one directory: the path must be free and its parent a
  directory.
\<close>

definition os_mkdir :: "path \<Rightarrow> filesystem \<Rightarrow> os_error + filesystem" where
  "os_mkdir p fs =
     (case fs p of
        Some _ \<Rightarrow> Inl FileExistsError
      | None \<Rightarrow>
          (case fs (parent p) of
             None \<Rightarrow> Inl FileNotFoundError
           | Some (File _) \<Rightarrow> Inl NotADirectoryError
           | Some Dir \<Rightarrow> Inr (fs(p \<mapsto> Dir))))"

text \<open>
  \<^verbatim>\<open>Path.mkdir(parents=True, exist_ok=True)\<close> of pathlib tries \<^verbatim>\<open>os.mkdir\<close>;
  on FileNotFoundError it makes the parent in the same way and then the
  directory itself without \<^verbatim>\<open>parents\<close>; any other error is dropped when the
  path is a directory already and raised again otherwise.
\<close>

definition mkdir_exist_ok :: "path \<Rightarrow> filesystem \<Rightarrow> os_error + filesystem" where
  "mkdir_exist_ok p fs =
     (case os_mkdir p fs of
        Inr fs' \<Rightarrow> Inr fs'
      | Inl FileNotFoundError \<Rightarrow> Inl FileNotFoundError
      | Inl e \<Rightarrow> if is_dir fs p then Inr fs else Inl e)"

function mkdir_parents :: "path \<Rightarrow> filesystem \<Rightarrow> os_error + filesystem" where
  "mkdir_parents p fs =
     (case os_mkdir p fs of
        Inr fs' \<Rightarrow> Inr fs'
      | Inl FileNotFoundError \<Rightarrow>
          if parent p = p then Inl FileNotFoundError
          else (case mkdir_parents (parent p) fs of
                  Inl e \<Rightarrow> Inl e
                | Inr fs1 \<Rightarrow> mkdir_exist_ok p fs1)
      | Inl e \<Rightarrow> if is_dir fs p then Inr fs else Inl e)"
  by pat_completeness auto
termination
proof (relation "measure (\<lambda>(p, fs). length p)")
  fix p :: path and fs :: filesystem
  assume "parent p \<noteq> p"
  then have "p \<noteq> []" by (auto simp: parent_def)
  then show "((parent p, fs), (p, fs)) \<in> measure (\<lambda>(p, fs). length p)"
    by (simp add: parent_def)
qed simp

declare mkdir_parents.simps [simp del]

text \<open>
  \<^verbatim>\<open>Path.touch(exist_ok=True)\<close> first tries \<^verbatim>\<open>os.utime\<close>, which succeeds on
  whatever exists at the path, and otherwise opens the path with
  \<^verbatim>\<open>O_CREAT\<close>, which makes an empty file in a parent that is a directory.
\<close>

definition os_utime :: "path \<Rightarrow> filesystem \<Rightarrow> os_error + filesystem" where
  "os_utime p fs = (case fs p of None \<Rightarrow> Inl FileNotFoundError | Some _ \<Rightarrow> Inr fs)"

definition os_open_creat :: "path \<Rightarrow> filesystem \<Rightarrow> os_error + filesystem" where
  "os_open_creat p fs =
     (case fs p of
        Some Dir \<Rightarrow> Inl IsADirectoryError
      | Some (File _) \<Rightarrow> Inr fs
      | None \<Rightarrow>
          (case fs (parent p) of
             None \<Rightarrow> Inl FileNotFoundError
           | Some (File _) \<Rightarrow> Inl NotADirectoryError
           | Some Dir \<Rightarrow> Inr (fs(p \<mapsto> File []))))"

definition touch :: "path \<Rightarrow> filesystem \<Rightarrow> os_error + filesystem" where
  "touch p fs =
     (case os_utime p fs of
        Inr fs' \<Rightarrow> Inr fs'
      | Inl _ \<Rightarrow> os_open_creat p fs)"

subsection \<open>ensure_file\<close>

definition ensure_file :: "path \<Rightarrow> filesystem \<Rightarrow> os_error + filesystem" where
  "ensure_file p fs =
     (case mkdir_parents (parent p) fs of
        Inl e \<Rightarrow> Inl e
      | Inr fs1 \<Rightarrow> touch p fs1)"

subsection \<open>Reading lines\<close>

text \<open>
  \<^verbatim>\<open>path.open\<close> fails on a missing path and on a directory. A file opened
  for reading in text mode with the default \<^verbatim>\<open>newline=None\<close> reads with
  universal newlines: a line ends at a line feed, at a carriage return or at
  the pair of both, each handed over as one line feed, and a last line without
  an end is a line too. \<open>universal_lines cur t\<close> are the lines read when
  \<open>cur\<close> has been read of the current line and \<open>t\<close> is still to come.
\<close>

definition LF :: char where
  "LF = CHR 0x0A"

definition CR :: char where
  "CR = CHR 0x0D"

definition open_file :: "path \<Rightarrow> filesystem \<Rightarrow> os_error + string" where
  "open_file p fs =
     (case fs p of
        None \<Rightarrow> Inl FileNotFoundError
      | Some Dir \<Rightarrow> Inl IsADirectoryError
      | Some (File t) \<Rightarrow> Inr t)"

fun universal_lines :: "string \<Rightarrow> string \<Rightarrow> string list" where
  "universal_lines cur [] = (if cur = [] then [] else [cur])"
| "universal_lines cur (c # cs) =
     (if c = CR then
        (case cs of
           [] \<Rightarrow> [cur @ [LF]]
         | d # ds \<Rightarrow>
             if d = LF then (cur @ [LF]) # universal_lines [] ds
             else (cur @ [LF]) # universal_lines [] cs)
      else if c = LF then (cur @ [LF]) # universal_lines [] cs
      else universal_lines (cur @ [c]) cs)"

subsection \<open>count_lines\<close>

fun count_loop :: "string list \<Rightarrow> nat \<Rightarrow> nat" where
  "count_loop [] count = count"
| "count_loop (l # ls) count = count_loop ls (count + 1)"

definition count_lines :: "path \<Rightarrow> filesystem \<Rightarrow> os_error + (nat \<times> filesystem)" where
  "count_lines p fs =
     (case ensure_file p fs of
        Inl e \<Rightarrow> Inl e
      | Inr fs1 \<Rightarrow>
          (case open_file p fs1 of
             Inl e \<Rightarrow> Inl e
           | Inr t \<Rightarrow> Inr (count_loop (universal_lines [] t) 0, fs1)))"

subsection \<open>append_lines\<close>

text \<open>
  \<^verbatim>\<open>line.rstrip("\n")\<close> removes every line feed at the end of the line and
  nothing else. A file opened with the mode \<^verbatim>\<open>a\<close> writes at its end; the line
  feed that is written stays a line feed, as on every system whose
  \<^verbatim>\<open>os.linesep\<close> is the line feed.
\<close>

definition rstrip_newline :: "string \<Rightarrow> string" where
  "rstrip_newline s = rev (dropWhile (\<lambda>c. c = LF) (rev s))"

fun write_loop :: "string list \<Rightarrow> string \<Rightarrow> string" where
  "write_loop [] t = t"
| "write_loop (line # lines) t = write_loop lines (t @ (rstrip_newline line @ [LF]))"

definition append_lines :: "path \<Rightarrow> string list \<Rightarrow> filesystem \<Rightarrow> os_error + filesystem" where
  "append_lines p lines fs =
     (case ensure_file p fs of
        Inl e \<Rightarrow> Inl e
      | Inr fs1 \<Rightarrow>
          (case open_file p fs1 of
             Inl e \<Rightarrow> Inl e
           | Inr t \<Rightarrow> Inr (fs1(p \<mapsto> File (write_loop lines t)))))"

text \<open>
  The last part of \<^verbatim>\<open>demo\<close> counts the lines, appends and counts again; here
  with any path and any lines in place of \<^verbatim>\<open>file.txt\<close> and its three lines.
  The result is the pair of both counts.
\<close>

definition count_append_count ::
  "path \<Rightarrow> string list \<Rightarrow> filesystem \<Rightarrow> os_error + (nat \<times> nat)" where
  "count_append_count p lines fs =
     (case count_lines p fs of
        Inl e \<Rightarrow> Inl e
      | Inr (before, fs1) \<Rightarrow>
          (case append_lines p lines fs1 of
             Inl e \<Rightarrow> Inl e
           | Inr fs2 \<Rightarrow>
               (case count_lines p fs2 of
                  Inl e \<Rightarrow> Inl e
                | Inr (after, fs3) \<Rightarrow> Inr (before, after))))"

subsection \<open>Notions for the statements\<close>

text \<open>
  A path is the place of a file when the base directory exists, none of its
  proper ancestors is a regular file, and it is not a directory itself: then
  the file is there or can be made there.
\<close>

definition file_location :: "filesystem \<Rightarrow> path \<Rightarrow> bool" where
  "file_location fs p =
     (fs [] = Some Dir \<and> (\<forall>n < length p. \<not> is_file fs (take n p)) \<and> fs p \<noteq> Some Dir)"

text \<open>The text is empty or ends with a line feed.\<close>

definition newline_terminated :: "string \<Rightarrow> bool" where
  "newline_terminated t = (t = [] \<or> last t = LF)"

text \<open>A string without a line end: neither a line feed nor a carriage return.\<close>

definition no_line_break :: "string \<Rightarrow> bool" where
  "no_line_break s = (CR \<notin> set s \<and> LF \<notin> set s)"

text \<open>What \<^verbatim>\<open>append_lines\<close> is to write for a list of lines.\<close>

definition written_text :: "string list \<Rightarrow> string" where
  "written_text lines = concat (map (\<lambda>l. rstrip_newline l @ [LF]) lines)"

text \<open>
  From \<open>fs\<close> to \<open>fs'\<close> nothing changed but that directories came into
  being, each at a path of at most \<open>k\<close> components.
\<close>

definition only_adds_dirs :: "filesystem \<Rightarrow> filesystem \<Rightarrow> nat \<Rightarrow> bool" where
  "only_adds_dirs fs fs' k =
     (\<forall>r. fs' r = fs r \<or> (fs r = None \<and> fs' r = Some Dir \<and> length r \<le> k))"

section \<open>Properties of the loops\<close>

lemma iterate_list_loop_eq: "iterate_list_loop xs out = out @ xs"
  by (induction xs arbitrary: out) simp_all

lemma with_zip_loop_eq: "with_zip_loop ps pairs = pairs @ ps"
  by (induction ps pairs rule: with_zip_loop.induct) simp_all

lemma with_zip_eq: "with_zip names ages = zip names ages"
  by (simp add: with_zip_def with_zip_loop_eq)

lemma odds_only_loop_eq: "odds_only_loop ns out = out @ filter (\<lambda>n. n mod 2 \<noteq> 0) ns"
  by (induction ns arbitrary: out) simp_all

lemma find_first_even_loop_filter:
  "find_first_even_loop nums first =
     (case filter (\<lambda>n. n mod 2 = 0) nums of
        [] \<Rightarrow> (first, False)
      | v # _ \<Rightarrow> (Some v, True))"
  by (induction nums) simp_all

lemma range_py_upto: "range_py start stop = [start..stop - 1]"
proof (induction start stop rule: range_py.induct)
  case (1 start stop)
  show ?case
  proof (cases "start < stop")
    case True
    then have "[start..stop - 1] = start # [start + 1..stop - 1]"
      by (simp add: upto_rec1)
    with True 1 show ?thesis by (simp add: range_py.simps [of start stop])
  next
    case False
    then show ?thesis by (simp add: range_py.simps [of start stop])
  qed
qed

lemma row_loop_eq: "row_loop i js row = row @ map (\<lambda>j. i * j) js"
  by (induction js arbitrary: row) simp_all

lemma table_loop_eq:
  "table_loop n is table = table @ map (\<lambda>i. map (\<lambda>j. i * j) [1..n]) is"
  by (induction "is" arbitrary: table) (simp_all add: row_loop_eq range_py_upto)

lemma multiplication_table_eq:
  "multiplication_table n = map (\<lambda>i. map (\<lambda>j. i * j) [1..n]) [1..n]"
  by (simp add: multiplication_table_def table_loop_eq range_py_upto)

lemma comprehension_filter: "[f i. i \<leftarrow> xs, P i] = map f (filter P xs)"
  by (induction xs) simp_all

lemma squares_until_eq: "squares_until n = map (\<lambda>i. i * i) [0..n - 1]"
  by (simp add: squares_until_def range_py_upto)

lemma even_squares_until_eq:
  "even_squares_until n = map (\<lambda>i. i * i) (filter (\<lambda>i. i mod 2 = 0) [0..n - 1])"
  by (simp only: even_squares_until_def range_py_upto comprehension_filter)

lemma squares_until_values:
  "squares_until 0 = []" "squares_until 1 = [0]" "squares_until 5 = [0, 1, 4, 9, 16]"
  "squares_until 10 = [0, 1, 4, 9, 16, 25, 36, 49, 64, 81]"
  by (simp_all add: squares_until_eq upto.simps)

lemma even_squares_until_values:
  "even_squares_until 0 = []" "even_squares_until 1 = [0]"
  "even_squares_until 5 = [0, 4, 16]" "even_squares_until 10 = [0, 4, 16, 36, 64]"
  by (simp_all add: even_squares_until_eq upto.simps)

text \<open>
  C6. For every sequence \<open>xs\<close>, \<open>iterate_list xs\<close> is \<open>xs\<close>: the same elements
  in the same order.
\<close>

theorem iterate_list_identity: "iterate_list xs = xs"
  by (simp add: iterate_list_def iterate_list_loop_eq)

text \<open>
  C3. The list that \<open>with_zip\<close> returns is as long as the shorter of its two
  arguments.
\<close>

theorem with_zip_length: "length (with_zip names ages) = min (length names) (length ages)"
  by (simp add: with_zip_eq)

text \<open>
  C9. Below the length of the shorter argument, the element of
  \<open>with_zip names ages\<close> at the index \<open>i\<close> is the pair of the elements of
  \<open>names\<close> and \<open>ages\<close> at \<open>i\<close>.
\<close>

theorem with_zip_nth:
  "i < min (length names) (length ages) \<Longrightarrow> with_zip names ages ! i = (names ! i, ages ! i)"
  by (simp add: with_zip_eq)

theorem with_zip_nth_witness:
  "(1::nat) < min (length [''Ala'', ''Ola'', ''Ewa'']) (length [25, 30 :: int]) \<and>
   with_zip [''Ala'', ''Ola'', ''Ewa''] [25, 30 :: int] ! 1 = (''Ola'', 30)"
proof -
  have h: "(1::nat) < min (length [''Ala'', ''Ola'', ''Ewa'']) (length [25, 30 :: int])"
    by simp
  from with_zip_nth [OF h] h show ?thesis by simp
qed

text \<open>
  C2. \<open>find_first_even nums\<close> is decided by the even numbers of \<open>nums\<close> in
  their order: when there is one, the result is the first of them, which is
  not \<open>None\<close>, with the flag \<open>False\<close>; when there is none, the result is
  \<open>None\<close> with the flag \<open>True\<close>. The loop is left by \<^verbatim>\<open>break\<close> exactly when
  there is an even number, so the flag is \<open>True\<close> exactly when the loop ran to
  its end.
\<close>

theorem find_first_even_flag:
  "find_first_even nums =
     (case filter (\<lambda>n. n mod 2 = 0) nums of
        [] \<Rightarrow> (None, True)
      | v # _ \<Rightarrow> (Some v, False)) \<and>
   find_first_even_loop nums None =
     (case filter (\<lambda>n. n mod 2 = 0) nums of
        [] \<Rightarrow> (None, False)
      | v # _ \<Rightarrow> (Some v, True)) \<and>
   ((\<exists>n\<in>set nums. n mod 2 = 0) \<longrightarrow>
      fst (find_first_even nums) \<noteq> None \<and> \<not> snd (find_first_even nums)) \<and>
   ((\<forall>n\<in>set nums. n mod 2 \<noteq> 0) \<longrightarrow> find_first_even nums = (None, True))"
proof -
  have r: "find_first_even nums =
     (case filter (\<lambda>n. n mod 2 = 0) nums of
        [] \<Rightarrow> (None, True)
      | v # _ \<Rightarrow> (Some v, False))"
    by (simp add: find_first_even_def find_first_even_loop_filter split: list.splits)
  have found: "fst (find_first_even nums) \<noteq> None \<and> \<not> snd (find_first_even nums)"
    if "\<exists>n\<in>set nums. n mod 2 = 0"
  proof -
    from that have "filter (\<lambda>n. n mod 2 = 0) nums \<noteq> []"
      by (simp add: filter_empty_conv)
    then obtain v vs where "filter (\<lambda>n. n mod 2 = 0) nums = v # vs"
      by (cases "filter (\<lambda>n. n mod 2 = 0) nums") auto
    with r show ?thesis by simp
  qed
  have none: "find_first_even nums = (None, True)" if "\<forall>n\<in>set nums. n mod 2 \<noteq> 0"
  proof -
    from that have "filter (\<lambda>n. n mod 2 = 0) nums = []"
      by (simp add: filter_empty_conv)
    with r show ?thesis by simp
  qed
  from r found none show ?thesis
    by (simp only: find_first_even_loop_filter [of nums None]) blast
qed

theorem find_first_even_flag_witness:
  "find_first_even [1, 3, 5, 8, 9] = (Some 8, False) \<and>
   find_first_even [0, 2] = (Some 0, False) \<and>
   (\<exists>n\<in>set [1, 3, 5, 8, 9 :: int]. n mod 2 = 0) \<and>
   fst (find_first_even [1, 3, 5, 8, 9]) \<noteq> None \<and>
   \<not> snd (find_first_even [1, 3, 5, 8, 9]) \<and>
   \<not> (\<exists>n\<in>set [1, 3, 5 :: int]. n mod 2 = 0) \<and>
   find_first_even [1, 3, 5] = (None, True)"
proof -
  have a: "\<exists>n\<in>set [1, 3, 5, 8, 9 :: int]. n mod 2 = 0" by simp
  have b: "\<forall>n\<in>set [1, 3, 5 :: int]. n mod 2 \<noteq> 0" by simp
  have "find_first_even [1, 3, 5, 8, 9] = (Some 8, False)"
    using find_first_even_flag [of "[1, 3, 5, 8, 9]", THEN conjunct1] by simp
  moreover have "find_first_even [0, 2] = (Some 0, False)"
    using find_first_even_flag [of "[0, 2]", THEN conjunct1] by simp
  moreover have "fst (find_first_even [1, 3, 5, 8, 9]) \<noteq> None \<and>
      \<not> snd (find_first_even [1, 3, 5, 8, 9])"
    using find_first_even_flag [of "[1, 3, 5, 8, 9]", THEN conjunct2, THEN conjunct2,
        THEN conjunct1] a by (rule mp)
  moreover have "find_first_even [1, 3, 5] = (None, True)"
    using find_first_even_flag [of "[1, 3, 5]", THEN conjunct2, THEN conjunct2,
        THEN conjunct2] b by (rule mp)
  moreover have "\<not> (\<exists>n\<in>set [1, 3, 5 :: int]. n mod 2 = 0)" by simp
  ultimately show ?thesis using a by simp
qed

text \<open>
  C4. \<open>odds_only nums\<close> is the list of the elements of \<open>nums\<close> that are not
  even, in the order they have in \<open>nums\<close>.
\<close>

theorem odds_only_filter: "odds_only nums = filter (\<lambda>n. n mod 2 \<noteq> 0) nums"
  by (simp add: odds_only_def odds_only_loop_eq)

text \<open>
  C5. For \<open>n\<close> among 0, 1, 5 and 10, \<open>squares_until n\<close> is the list of the
  squares of 0 to \<open>n - 1\<close>, and \<open>even_squares_until n\<close> the list of the squares
  of the even numbers among them.
\<close>

theorem squares_recomputed:
  "squares_until 0 = map (\<lambda>i. i * i) [0..0 - 1] \<and>
   squares_until 1 = map (\<lambda>i. i * i) [0..1 - 1] \<and>
   squares_until 5 = map (\<lambda>i. i * i) [0..5 - 1] \<and>
   squares_until 10 = map (\<lambda>i. i * i) [0..10 - 1] \<and>
   even_squares_until 0 = map (\<lambda>i. i * i) (filter (\<lambda>i. i mod 2 = 0) [0..0 - 1]) \<and>
   even_squares_until 1 = map (\<lambda>i. i * i) (filter (\<lambda>i. i mod 2 = 0) [0..1 - 1]) \<and>
   even_squares_until 5 = map (\<lambda>i. i * i) (filter (\<lambda>i. i mod 2 = 0) [0..5 - 1]) \<and>
   even_squares_until 10 = map (\<lambda>i. i * i) (filter (\<lambda>i. i mod 2 = 0) [0..10 - 1])"
  by (simp only: squares_until_eq even_squares_until_eq)

text \<open>
  C8. For \<open>n\<close> not below 0, \<open>multiplication_table n\<close> has \<open>n\<close> rows of \<open>n\<close>
  entries each, and the entry of the row \<open>i\<close> in the column \<open>j\<close>, both counted
  from 0, is \<open>(i + 1) * (j + 1)\<close>.
\<close>

theorem multiplication_table_entries:
  assumes "0 \<le> n"
  shows "length (multiplication_table n) = nat n \<and>
         (\<forall>i < nat n. length (multiplication_table n ! i) = nat n \<and>
            (\<forall>j < nat n. multiplication_table n ! i ! j = (int i + 1) * (int j + 1)))"
  using assms by (auto simp: multiplication_table_eq algebra_simps)

theorem multiplication_table_entries_witness:
  "(0::int) \<le> 3 \<and> length (multiplication_table 3) = 3 \<and>
   length (multiplication_table 3 ! 1) = 3 \<and> multiplication_table 3 ! 1 ! 2 = 6"
proof -
  have h: "(0::int) \<le> 3" by simp
  from multiplication_table_entries [OF h]
  have len: "length (multiplication_table 3) = 3"
    and rows: "\<forall>i < 3. length (multiplication_table 3 ! i) = 3 \<and>
            (\<forall>j < 3. multiplication_table 3 ! i ! j = (int i + 1) * (int j + 1))"
    by simp_all
  from rows have "length (multiplication_table 3 ! 1) = 3"
    and "\<forall>j < 3. multiplication_table 3 ! 1 ! j = (int 1 + 1) * (int j + 1)"
    by simp_all
  then have "length (multiplication_table 3 ! 1) = 3"
    and "multiplication_table 3 ! 1 ! 2 = (int 1 + 1) * (int 2 + 1)"
    by simp_all
  with len h show ?thesis by simp
qed

section \<open>Properties of the text file\<close>

subsection \<open>Making the directories and the file\<close>

lemma only_adds_dirs_refl: "only_adds_dirs fs fs k"
  by (simp add: only_adds_dirs_def)

lemma only_adds_dirs_mono: "only_adds_dirs fs fs' k \<Longrightarrow> k \<le> m \<Longrightarrow> only_adds_dirs fs fs' m"
  unfolding only_adds_dirs_def by (metis le_trans)

lemma only_adds_dirs_trans:
  "only_adds_dirs fs fs1 k \<Longrightarrow> only_adds_dirs fs1 fs2 k \<Longrightarrow> only_adds_dirs fs fs2 k"
  unfolding only_adds_dirs_def by metis

lemma os_mkdir_Inr:
  "os_mkdir p fs = Inr fs' \<Longrightarrow> fs p = None \<and> fs' = fs(p \<mapsto> Dir)"
  by (auto simp: os_mkdir_def split: option.splits node.splits)

lemma os_mkdir_adds: "os_mkdir p fs = Inr fs' \<Longrightarrow> fs' p = Some Dir \<and> only_adds_dirs fs fs' (length p)"
  by (auto simp: only_adds_dirs_def dest!: os_mkdir_Inr split: if_splits)

lemma mkdir_exist_ok_adds:
  "mkdir_exist_ok p fs = Inr fs' \<Longrightarrow> fs' p = Some Dir \<and> only_adds_dirs fs fs' (length p)"
  by (auto simp: mkdir_exist_ok_def is_dir_def only_adds_dirs_refl
           split: sum.splits os_error.splits if_splits dest: os_mkdir_adds)

lemma mkdir_parents_adds:
  "mkdir_parents p fs = Inr fs' \<Longrightarrow> fs' p = Some Dir \<and> only_adds_dirs fs fs' (length p)"
proof (induction p fs arbitrary: fs' rule: mkdir_parents.induct)
  case (1 p fs)
  show ?case
  proof (cases "os_mkdir p fs")
    case (Inr fs1)
    with 1 show ?thesis
      by (simp add: mkdir_parents.simps [of p fs] os_mkdir_adds)
  next
    case (Inl e)
    show ?thesis
    proof (cases "e = FileNotFoundError")
      case True
      with Inl "1.prems" have ne: "parent p \<noteq> p"
        by (auto simp: mkdir_parents.simps [of p fs] split: if_splits)
      with Inl True "1.prems" obtain fs1 where
        rec: "mkdir_parents (parent p) fs = Inr fs1" and fin: "mkdir_exist_ok p fs1 = Inr fs'"
        by (auto simp: mkdir_parents.simps [of p fs] split: sum.splits)
      from "1.IH" [OF Inl True ne rec]
      have "only_adds_dirs fs fs1 (length (parent p))" by simp
      then have a: "only_adds_dirs fs fs1 (length p)"
        by (rule only_adds_dirs_mono) (simp add: parent_def)
      from mkdir_exist_ok_adds [OF fin] a show ?thesis
        by (auto intro: only_adds_dirs_trans)
    next
      case False
      with Inl "1.prems" show ?thesis
        by (cases e) (auto simp: mkdir_parents.simps [of p fs] is_dir_def only_adds_dirs_refl
            split: if_splits)
    qed
  qed
qed


lemma mkdir_parents_succeeds:
  "fs [] = Some Dir \<Longrightarrow> (\<forall>n \<le> length p. \<not> is_file fs (take n p)) \<Longrightarrow>
   \<exists>fs'. mkdir_parents p fs = Inr fs'"
proof (induction p fs rule: mkdir_parents.induct)
  case (1 p fs)
  from "1.prems"(2) have nf: "\<not> is_file fs p" by force
  show ?case
  proof (cases "fs p")
    case (Some n)
    with nf have "fs p = Some Dir" by (cases n) (simp_all add: is_file_def)
    then show ?thesis
      by (simp add: mkdir_parents.simps [of p fs] os_mkdir_def is_dir_def)
  next
    case None
    with "1.prems"(1) have pne: "p \<noteq> []" by auto
    then have len: "length (parent p) < length p"
      by (simp add: parent_def)
    then have ne: "parent p \<noteq> p" by auto
    have tk: "take (length p - 1) p = parent p"
      by (simp add: parent_def butlast_conv_take)
    from "1.prems"(2) [rule_format, of "length p - 1"] tk
    have npf: "\<not> is_file fs (parent p)" by simp
    show ?thesis
    proof (cases "fs (parent p)")
      case (Some n)
      with npf have "fs (parent p) = Some Dir" by (cases n) (simp_all add: is_file_def)
      with None show ?thesis
        by (simp add: mkdir_parents.simps [of p fs] os_mkdir_def)
    next
      case pNone: None
      with None have e: "os_mkdir p fs = Inl FileNotFoundError"
        by (simp add: os_mkdir_def)
      have "\<forall>n \<le> length (parent p). \<not> is_file fs (take n (parent p))"
      proof (intro allI impI)
        fix n assume n: "n \<le> length (parent p)"
        with len have "n < length p" by simp
        moreover from this have "take n (parent p) = take n p"
          by (simp add: parent_def take_butlast)
        ultimately show "\<not> is_file fs (take n (parent p))"
          using "1.prems"(2) by simp
      qed
      with "1.IH" [OF e refl ne "1.prems"(1)]
      obtain fs1 where rec: "mkdir_parents (parent p) fs = Inr fs1" by blast
      from mkdir_parents_adds [OF rec]
      have d: "fs1 (parent p) = Some Dir" and a: "only_adds_dirs fs fs1 (length (parent p))"
        by simp_all
      from a len None have "fs1 p = None"
        unfolding only_adds_dirs_def by (metis not_le)
      with d have "mkdir_exist_ok p fs1 = Inr (fs1(p \<mapsto> Dir))"
        by (simp add: mkdir_exist_ok_def os_mkdir_def)
      with e ne rec show ?thesis
        by (simp add: mkdir_parents.simps [of p fs])
    qed
  qed
qed

lemma touch_Inr:
  "touch p fs = Inr fs' \<Longrightarrow>
   fs' = (case fs p of None \<Rightarrow> fs(p \<mapsto> File []) | Some _ \<Rightarrow> fs)"
  by (auto simp: touch_def os_utime_def os_open_creat_def
           split: option.splits node.splits sum.splits)

lemma touch_succeeds:
  "fs (parent p) = Some Dir \<Longrightarrow> \<exists>fs'. touch p fs = Inr fs'"
  by (auto simp: touch_def os_utime_def os_open_creat_def
           split: option.splits node.splits sum.splits)

subsection \<open>Lines\<close>

lemma CR_neq_LF: "CR \<noteq> LF"
  by (simp add: CR_def LF_def)

lemma universal_lines_one:
  "CR \<notin> set s \<Longrightarrow> LF \<notin> set s \<Longrightarrow> universal_lines cur (s @ [LF]) = [cur @ s @ [LF]]"
  by (induction s arbitrary: cur) (auto simp: CR_neq_LF)

lemma write_loop_written: "write_loop lines t = t @ written_text lines"
  by (induction lines arbitrary: t) (simp_all add: written_text_def)

lemma count_loop_eq: "count_loop ls count = count + length ls"
  by (induction ls arbitrary: count) simp_all

lemma written_text_terminated: "newline_terminated (written_text lines)"
  by (induction lines rule: rev_induct) (simp_all add: written_text_def newline_terminated_def)

lemma universal_lines_append:
  "t \<noteq> [] \<Longrightarrow> last t = LF \<Longrightarrow>
   universal_lines cur (t @ u) = universal_lines cur t @ universal_lines [] u"
proof (induction cur t rule: universal_lines.induct)
  case (1 cur)
  then show ?case by simp
next
  case (2 cur c cs)
  show ?case
  proof (cases cs)
    case Nil
    with "2.prems" have "c = LF" by simp
    with Nil CR_neq_LF show ?thesis by auto
  next
    case (Cons d ds)
    with "2.prems" have l: "last cs = LF" and ne: "cs \<noteq> []" by simp_all
    show ?thesis
    proof (cases "c = CR")
      case True
      show ?thesis
      proof (cases "d = LF")
        case dLF: True
        show ?thesis
        proof (cases "ds = []")
          case True
          with Cons dLF \<open>c = CR\<close> show ?thesis by simp
        next
          case False
          with l Cons have "last ds = LF" by simp
          from "2.IH"(1) [OF \<open>c = CR\<close> Cons dLF False this]
          have "universal_lines [] (ds @ u) = universal_lines [] ds @ universal_lines [] u" .
          with Cons dLF \<open>c = CR\<close> show ?thesis by simp
        qed
      next
        case False
        from "2.IH"(2) [OF \<open>c = CR\<close> Cons False ne l]
        have "universal_lines [] (cs @ u) = universal_lines [] cs @ universal_lines [] u" .
        with Cons False \<open>c = CR\<close> show ?thesis by simp
      qed
    next
      case nCR: False
      show ?thesis
      proof (cases "c = LF")
        case True
        from "2.IH"(3) [OF nCR True ne l]
        have "universal_lines [] (cs @ u) = universal_lines [] cs @ universal_lines [] u" .
        with nCR True show ?thesis by simp
      next
        case nLF: False
        from "2.IH"(4) [OF nCR nLF ne l]
        have "universal_lines (cur @ [c]) (cs @ u) = universal_lines (cur @ [c]) cs @ universal_lines [] u" .
        with nCR nLF show ?thesis by simp
      qed
    qed
  qed
qed

lemma universal_lines_append_terminated:
  "t = [] \<or> last t = LF \<Longrightarrow>
   universal_lines [] (t @ u) = universal_lines [] t @ universal_lines [] u"
  by (cases "t = []") (simp_all add: universal_lines_append)

lemma universal_lines_terminated:
  "t \<noteq> [] \<Longrightarrow> last t = LF \<Longrightarrow> l \<in> set (universal_lines cur t) \<Longrightarrow> l \<noteq> [] \<and> last l = LF"
proof (induction cur t rule: universal_lines.induct)
  case (1 cur)
  then show ?case by simp
next
  case (2 cur c cs)
  show ?case
  proof (cases cs)
    case Nil
    with "2.prems" have "c = LF" by simp
    with Nil CR_neq_LF "2.prems"(3) show ?thesis by auto
  next
    case (Cons d ds)
    with "2.prems" have lc: "last cs = LF" and ne: "cs \<noteq> []" by simp_all
    show ?thesis
    proof (cases "c = CR")
      case True
      show ?thesis
      proof (cases "d = LF")
        case dLF: True
        show ?thesis
        proof (cases "ds = []")
          case True
          with Cons dLF \<open>c = CR\<close> "2.prems"(3) show ?thesis by simp
        next
          case False
          with lc Cons have ld: "last ds = LF" by simp
          from "2.prems"(3) Cons dLF \<open>c = CR\<close>
          have "l = cur @ [LF] \<or> l \<in> set (universal_lines [] ds)" by simp
          with "2.IH"(1) [OF \<open>c = CR\<close> Cons dLF False ld] show ?thesis by auto
        qed
      next
        case False
        from "2.prems"(3) Cons False \<open>c = CR\<close>
        have "l = cur @ [LF] \<or> l \<in> set (universal_lines [] cs)" by simp
        with "2.IH"(2) [OF \<open>c = CR\<close> Cons False ne lc] show ?thesis by auto
      qed
    next
      case nCR: False
      show ?thesis
      proof (cases "c = LF")
        case True
        from "2.prems"(3) nCR True
        have "l = cur @ [LF] \<or> l \<in> set (universal_lines [] cs)" by simp
        with "2.IH"(3) [OF nCR True ne lc] show ?thesis by auto
      next
        case nLF: False
        from "2.prems"(3) nCR nLF
        have "l \<in> set (universal_lines (cur @ [c]) cs)" by simp
        with "2.IH"(4) [OF nCR nLF ne lc] show ?thesis by auto
      qed
    qed
  qed
qed


lemma universal_lines_written:
  "(\<forall>l \<in> set lines. no_line_break (rstrip_newline l)) \<Longrightarrow>
   universal_lines [] (written_text lines) = map (\<lambda>l. rstrip_newline l @ [LF]) lines"
proof (induction lines)
  case Nil
  then show ?case by (simp add: written_text_def)
next
  case (Cons l lines)
  have w: "written_text (l # lines) = (rstrip_newline l @ [LF]) @ written_text lines"
    by (simp add: written_text_def)
  have "universal_lines [] ((rstrip_newline l @ [LF]) @ written_text lines) =
        universal_lines [] (rstrip_newline l @ [LF]) @ universal_lines [] (written_text lines)"
    by (rule universal_lines_append) simp_all
  moreover from Cons.prems
  have "universal_lines [] (rstrip_newline l @ [LF]) = [rstrip_newline l @ [LF]]"
    using universal_lines_one [of "rstrip_newline l" "[]"] by (simp add: no_line_break_def)
  moreover from Cons
  have "universal_lines [] (written_text lines) = map (\<lambda>l. rstrip_newline l @ [LF]) lines"
    by simp
  ultimately show ?case by (simp add: w)
qed

subsection \<open>The three functions at the place of a file\<close>

lemma ensure_file_succeeds:
  assumes "file_location fs p"
  shows "\<exists>fs'. ensure_file p fs = Inr fs'"
proof -
  from assms have root: "fs [] = Some Dir"
    and anc: "\<forall>n < length p. \<not> is_file fs (take n p)"
    and nd: "fs p \<noteq> Some Dir"
    by (simp_all add: file_location_def)
  from root nd have pne: "p \<noteq> []" by auto
  have "\<forall>n \<le> length (parent p). \<not> is_file fs (take n (parent p))"
  proof (intro allI impI)
    fix n assume n: "n \<le> length (parent p)"
    moreover from pne have "length p \<noteq> 0" by simp
    ultimately have "n < length p" unfolding parent_def length_butlast by linarith
    moreover from this have "take n (parent p) = take n p"
      by (simp add: parent_def take_butlast)
    ultimately show "\<not> is_file fs (take n (parent p))" using anc by simp
  qed
  with root obtain fs1 where m: "mkdir_parents (parent p) fs = Inr fs1"
    using mkdir_parents_succeeds by blast
  from mkdir_parents_adds [OF m] have "fs1 (parent p) = Some Dir" by simp
  then obtain fs' where "touch p fs1 = Inr fs'" using touch_succeeds by blast
  with m show ?thesis by (simp add: ensure_file_def)
qed

lemma file_location_cases:
  "file_location fs p \<Longrightarrow> p \<noteq> [] \<and> (fs p = None \<or> fs p = Some (File (file_text fs p)))"
  by (cases "fs p") (auto simp: file_location_def file_text_def split: node.splits)

lemma ensure_file_result:
  assumes "file_location fs p"
  shows "\<exists>fs'. ensure_file p fs = Inr fs' \<and> fs' p = Some (File (file_text fs p)) \<and>
           (\<forall>q. q \<noteq> p \<longrightarrow> fs' q = fs q \<or> (fs q = None \<and> fs' q = Some Dir))"
proof -
  from ensure_file_succeeds [OF assms] obtain fs' where e: "ensure_file p fs = Inr fs'" ..
  from file_location_cases [OF assms]
  have pne: "p \<noteq> []" and c: "fs p = None \<or> fs p = Some (File (file_text fs p))"
    by simp_all
  from e obtain fs1 where
    m: "mkdir_parents (parent p) fs = Inr fs1" and t: "touch p fs1 = Inr fs'"
    by (auto simp: ensure_file_def split: sum.splits)
  from mkdir_parents_adds [OF m]
  have a: "only_adds_dirs fs fs1 (length (parent p))" by simp
  from pne have "length (parent p) < length p" by (simp add: parent_def)
  with a have same: "fs1 p = fs p"
    unfolding only_adds_dirs_def by (metis not_le)
  from a have other: "\<forall>q. fs1 q = fs q \<or> (fs q = None \<and> fs1 q = Some Dir)"
    unfolding only_adds_dirs_def by metis
  from touch_Inr [OF t] same c
  have "fs' p = Some (File (file_text fs p))"
    by (auto simp: file_text_def split: option.splits)
  moreover from touch_Inr [OF t] other
  have "\<forall>q. q \<noteq> p \<longrightarrow> fs' q = fs q \<or> (fs q = None \<and> fs' q = Some Dir)"
    by (auto split: option.splits)
  ultimately show ?thesis using e by blast
qed

lemma file_location_kept:
  assumes "file_location fs p" and "fs' p = Some (File t)"
    and "\<forall>q. q \<noteq> p \<longrightarrow> fs' q = fs q \<or> (fs q = None \<and> fs' q = Some Dir)"
  shows "file_location fs' p"
proof -
  from file_location_cases [OF assms(1)] have pne: "p \<noteq> []" by simp
  with assms(1,3) have "fs' [] = Some Dir"
    by (auto simp: file_location_def)
  moreover have "\<forall>n < length p. \<not> is_file fs' (take n p)"
  proof (intro allI impI)
    fix n assume n: "n < length p"
    then have "take n p \<noteq> p" by (auto dest: arg_cong [where f = length])
    with assms(3) have "fs' (take n p) = fs (take n p) \<or> fs' (take n p) = Some Dir"
      by blast
    moreover from assms(1) n have "\<not> is_file fs (take n p)"
      by (simp add: file_location_def)
    ultimately show "\<not> is_file fs' (take n p)"
      by (auto simp: is_file_def)
  qed
  ultimately show ?thesis using assms(2) by (simp add: file_location_def)
qed

lemma count_lines_result:
  assumes "file_location fs p"
  shows "\<exists>fs'. count_lines p fs = Inr (length (universal_lines [] (file_text fs p)), fs') \<and>
           fs' p = Some (File (file_text fs p)) \<and> file_location fs' p"
proof -
  from ensure_file_result [OF assms] obtain fs' where
    e: "ensure_file p fs = Inr fs'" and t: "fs' p = Some (File (file_text fs p))"
    and o: "\<forall>q. q \<noteq> p \<longrightarrow> fs' q = fs q \<or> (fs q = None \<and> fs' q = Some Dir)"
    by blast
  from e t have "count_lines p fs = Inr (length (universal_lines [] (file_text fs p)), fs')"
    by (simp add: count_lines_def open_file_def count_loop_eq)
  with t file_location_kept [OF assms t o] show ?thesis by blast
qed

lemma append_lines_result:
  assumes "file_location fs p"
  shows "\<exists>fs'. append_lines p lines fs = Inr fs' \<and>
           fs' p = Some (File (file_text fs p @ written_text lines)) \<and>
           (\<forall>q. q \<noteq> p \<longrightarrow> fs' q = fs q \<or> (fs q = None \<and> fs' q = Some Dir)) \<and>
           file_location fs' p"
proof -
  from ensure_file_result [OF assms] obtain fs1 where
    e: "ensure_file p fs = Inr fs1" and t: "fs1 p = Some (File (file_text fs p))"
    and o: "\<forall>q. q \<noteq> p \<longrightarrow> fs1 q = fs q \<or> (fs q = None \<and> fs1 q = Some Dir)"
    by blast
  let ?fs' = "fs1(p \<mapsto> File (file_text fs p @ written_text lines))"
  from e t have a: "append_lines p lines fs = Inr ?fs'"
    by (simp add: append_lines_def open_file_def write_loop_written)
  have t': "?fs' p = Some (File (file_text fs p @ written_text lines))" by simp
  from o have o': "\<forall>q. q \<noteq> p \<longrightarrow> ?fs' q = fs q \<or> (fs q = None \<and> ?fs' q = Some Dir)"
    by simp
  from a t' o' file_location_kept [OF assms t' o'] show ?thesis by blast
qed

text \<open>The definitions that evaluate a call on a given file system.\<close>

lemmas file_defs =
  count_lines_def append_lines_def ensure_file_def mkdir_parents.simps mkdir_exist_ok_def
  parent_def os_mkdir_def is_dir_def touch_def os_utime_def os_open_creat_def open_file_def
  rstrip_newline_def count_append_count_def

subsection \<open>The claims about the text file\<close>

text \<open>
  C10, as stated: for every path that names no existing file, \<open>count_lines\<close>
  returns 0 and leaves an empty file at the path. Below a regular file nothing
  can be made: there the error of \<^verbatim>\<open>mkdir\<close> is what the call gives.
\<close>

theorem count_lines_under_file:
  "[[] \<mapsto> Dir, [''f''] \<mapsto> File []] [''f'', ''x''] = None \<and>
   count_lines [''f'', ''x''] [[] \<mapsto> Dir, [''f''] \<mapsto> File []] = Inl FileExistsError"
  by (simp add: file_defs)

text \<open>
  More generally, whatever the path, a regular file as its parent makes
  \<^verbatim>\<open>mkdir\<close> fail, and \<open>count_lines\<close> with it.
\<close>

lemma count_lines_parent_file:
  "is_file fs (parent p) \<Longrightarrow> count_lines p fs = Inl FileExistsError"
  by (auto simp: is_file_def count_lines_def ensure_file_def os_mkdir_def is_dir_def
      mkdir_parents.simps [of "parent p" fs] split: option.splits node.splits)

text \<open>
  C10, amended: for every path at which nothing exists and which is the place
  of a file (the base directory exists and no ancestor of the path is a
  regular file), \<open>count_lines\<close> returns 0, and after the call an empty file
  exists at the path.
\<close>

theorem count_lines_creates:
  assumes "file_location fs path" and "fs path = None"
  shows "\<exists>fs'. count_lines path fs = Inr (0, fs') \<and> fs' path = Some (File [])"
proof -
  from assms(2) have "file_text fs path = []" by (simp add: file_text_def)
  with count_lines_result [OF assms(1)] show ?thesis by auto
qed

theorem count_lines_creates_witness:
  "file_location [[] \<mapsto> Dir] [''data'', ''file.txt''] \<and>
   [[] \<mapsto> Dir] [''data'', ''file.txt''] = None \<and>
   (\<exists>fs'. count_lines [''data'', ''file.txt''] [[] \<mapsto> Dir] = Inr (0, fs') \<and>
          fs' [''data'', ''file.txt''] = Some (File []))"
proof -
  have l: "file_location [[] \<mapsto> Dir] [''data'', ''file.txt'']"
    by (simp add: file_location_def is_file_def)
  have n: "[[] \<mapsto> Dir] [''data'', ''file.txt''] = None" by simp
  from count_lines_creates [OF l n] l n show ?thesis by (intro conjI)
qed

text \<open>
  C7, as stated: for every state of the file, \<open>append_lines\<close> leaves every
  line that is in the file as it is and adds the new lines after them. A last
  line without a line end is not left as it is: what is appended goes on in
  that line.
\<close>

theorem append_lines_open_last_line:
  "append_lines [''file.txt''] [''x''] [[] \<mapsto> Dir, [''file.txt''] \<mapsto> File ''abc''] =
     Inr [[] \<mapsto> Dir, [''file.txt''] \<mapsto> File (''abcx'' @ [LF])] \<and>
   universal_lines []
     (file_text [[] \<mapsto> Dir, [''file.txt''] \<mapsto> File ''abc''] [''file.txt'']) = [''abc''] \<and>
   universal_lines []
     (file_text [[] \<mapsto> Dir, [''file.txt''] \<mapsto> File (''abcx'' @ [LF])] [''file.txt'']) =
     [''abcx'' @ [LF]]"
  by (simp add: file_defs file_text_def LF_def CR_def)

text \<open>
  C7, amended: at the place of a file, \<open>append_lines\<close> succeeds and never
  overwrites or reorders what the file holds: the text of the file afterwards
  is its text before, followed by every given line without the line feeds at
  its end and with one line feed after it. Every line read from what was
  added ends with a line feed. When the text before is empty or ends with a
  line feed, the lines of the file afterwards are the lines before, each as it
  was, followed by the lines of what was added.
\<close>

theorem append_lines_keeps_text:
  assumes "file_location fs path"
  shows "\<exists>fs'. append_lines path lines fs = Inr fs' \<and>
           file_text fs' path = file_text fs path @ written_text lines \<and>
           (\<forall>l \<in> set (universal_lines [] (written_text lines)). l \<noteq> [] \<and> last l = LF) \<and>
           (newline_terminated (file_text fs path) \<longrightarrow>
              universal_lines [] (file_text fs' path) =
              universal_lines [] (file_text fs path) @
              universal_lines [] (written_text lines))"
proof -
  from append_lines_result [OF assms, of lines] obtain fs' where
    a: "append_lines path lines fs = Inr fs'"
    and t: "fs' path = Some (File (file_text fs path @ written_text lines))"
    by blast
  from t have ft: "file_text fs' path = file_text fs path @ written_text lines"
    by (simp add: file_text_def)
  have ends: "\<forall>l \<in> set (universal_lines [] (written_text lines)). l \<noteq> [] \<and> last l = LF"
  proof (cases "written_text lines = []")
    case True
    then show ?thesis by simp
  next
    case False
    with written_text_terminated [of lines] have "last (written_text lines) = LF"
      by (simp add: newline_terminated_def)
    with False show ?thesis
      using universal_lines_terminated [of "written_text lines" _ "[]"] by blast
  qed
  have "newline_terminated (file_text fs path) \<longrightarrow>
        universal_lines [] (file_text fs' path) =
        universal_lines [] (file_text fs path) @ universal_lines [] (written_text lines)"
    using ft by (simp add: newline_terminated_def universal_lines_append_terminated)
  with a ft ends show ?thesis by blast
qed

theorem append_lines_keeps_text_witness:
  "file_location [[] \<mapsto> Dir, [''file.txt''] \<mapsto> File (''abc'' @ [LF])] [''file.txt''] \<and>
   newline_terminated
     (file_text [[] \<mapsto> Dir, [''file.txt''] \<mapsto> File (''abc'' @ [LF])] [''file.txt'']) \<and>
   (\<exists>fs'. append_lines [''file.txt''] [''x'', ''y'' @ [LF]]
            [[] \<mapsto> Dir, [''file.txt''] \<mapsto> File (''abc'' @ [LF])] = Inr fs' \<and>
          file_text fs' [''file.txt''] = ''abc'' @ [LF] @ ''x'' @ [LF] @ ''y'' @ [LF] \<and>
          universal_lines [] (file_text fs' [''file.txt'']) =
            [''abc'' @ [LF], ''x'' @ [LF], ''y'' @ [LF]])"
proof -
  let ?fs = "[[] \<mapsto> Dir, [''file.txt''] \<mapsto> File (''abc'' @ [LF])]"
  have l: "file_location ?fs [''file.txt'']"
    by (simp add: file_location_def is_file_def)
  have n: "newline_terminated (file_text ?fs [''file.txt''])"
    by (simp add: newline_terminated_def file_text_def)
  have w: "written_text [''x'', ''y'' @ [LF]] = ''x'' @ [LF] @ ''y'' @ [LF]"
    by (simp add: written_text_def rstrip_newline_def LF_def)
  have u: "universal_lines [] (''x'' @ [LF] @ ''y'' @ [LF]) = [''x'' @ [LF], ''y'' @ [LF]]"
    by (simp add: LF_def CR_def)
  have v: "universal_lines [] (''abc'' @ [LF]) = [''abc'' @ [LF]]"
    by (simp add: LF_def CR_def)
  have f: "file_text ?fs [''file.txt''] = ''abc'' @ [LF]"
    by (simp add: file_text_def)
  from append_lines_keeps_text [OF l, of "[''x'', ''y'' @ [LF]]"] n obtain fs' where
    "append_lines [''file.txt''] [''x'', ''y'' @ [LF]] ?fs = Inr fs'"
    "file_text fs' [''file.txt''] = file_text ?fs [''file.txt''] @ written_text [''x'', ''y'' @ [LF]]"
    "universal_lines [] (file_text fs' [''file.txt'']) =
       universal_lines [] (file_text ?fs [''file.txt'']) @
       universal_lines [] (written_text [''x'', ''y'' @ [LF]])"
    by blast
  with w u v f have "append_lines [''file.txt''] [''x'', ''y'' @ [LF]] ?fs = Inr fs' \<and>
          file_text fs' [''file.txt''] = ''abc'' @ [LF] @ ''x'' @ [LF] @ ''y'' @ [LF] \<and>
          universal_lines [] (file_text fs' [''file.txt'']) =
            [''abc'' @ [LF], ''x'' @ [LF], ''y'' @ [LF]]"
    by simp
  with l n show ?thesis by blast
qed

text \<open>
  C1, as stated: for every path and every list of strings, \<open>append_lines\<close>
  raises the count of \<open>count_lines\<close> by the number of the strings. A string
  with a line feed inside is one string and two lines; and after a last line
  without a line end the first string goes on in that line.
\<close>

theorem append_lines_count_differs:
  "count_append_count [''file.txt''] [[CHR ''a'', LF, CHR ''b'']] [[] \<mapsto> Dir] = Inr (0, 2) \<and>
   length [[CHR ''a'', LF, CHR ''b'']] = 1 \<and>
   count_append_count [''file.txt''] [''x'']
     [[] \<mapsto> Dir, [''file.txt''] \<mapsto> File ''abc''] = Inr (1, 1) \<and>
   length [''x''] = 1"
  by (simp add: file_defs LF_def CR_def)

text \<open>
  C1, amended: at the place of a file that is missing, empty or ends with a
  line feed, and for lines that, without the line feeds at their end, hold
  neither a line feed nor a carriage return, \<open>append_lines\<close> raises the count
  that \<open>count_lines\<close> returns by exactly the number of the lines, whether the
  file was there before the call or not, and whether the lines were counted
  before by a call of \<open>count_lines\<close> or not.
\<close>

theorem append_lines_count:
  assumes "file_location fs path"
    and "newline_terminated (file_text fs path)"
    and "\<forall>l \<in> set lines. no_line_break (rstrip_newline l)"
  shows "\<exists>before fs0 fs1 fs2.
           count_lines path fs = Inr (before, fs0) \<and>
           append_lines path lines fs = Inr fs1 \<and>
           count_lines path fs1 = Inr (before + length lines, fs2) \<and>
           count_append_count path lines fs = Inr (before, before + length lines)"
proof -
  let ?t = "file_text fs path"
  let ?before = "length (universal_lines [] ?t)"
  have grow: "length (universal_lines [] (?t @ written_text lines)) = ?before + length lines"
    using assms(2,3)
    by (simp add: newline_terminated_def universal_lines_append_terminated
        universal_lines_written)
  from count_lines_result [OF assms(1)] obtain fs0 where
    c0: "count_lines path fs = Inr (?before, fs0)"
    and t0: "fs0 path = Some (File ?t)" and l0: "file_location fs0 path"
    by blast
  from t0 have ft0: "file_text fs0 path = ?t" by (simp add: file_text_def)
  from append_lines_result [OF assms(1), of lines] obtain fs1 where
    a1: "append_lines path lines fs = Inr fs1"
    and t1: "fs1 path = Some (File (?t @ written_text lines))"
    and l1: "file_location fs1 path"
    by blast
  from t1 have ft1: "file_text fs1 path = ?t @ written_text lines" by (simp add: file_text_def)
  from count_lines_result [OF l1] ft1 grow obtain fs2 where
    c2: "count_lines path fs1 = Inr (?before + length lines, fs2)"
    by auto
  from append_lines_result [OF l0, of lines] ft0 obtain fs1' where
    a1': "append_lines path lines fs0 = Inr fs1'"
    and t1': "fs1' path = Some (File (?t @ written_text lines))"
    and l1': "file_location fs1' path"
    by auto
  from t1' have ft1': "file_text fs1' path = ?t @ written_text lines"
    by (simp add: file_text_def)
  from count_lines_result [OF l1'] ft1' grow obtain fs2' where
    c2': "count_lines path fs1' = Inr (?before + length lines, fs2')"
    by auto
  from c0 a1' c2' have "count_append_count path lines fs = Inr (?before, ?before + length lines)"
    by (simp add: count_append_count_def)
  with c0 a1 c2 show ?thesis by blast
qed

theorem append_lines_count_witness:
  "file_location [[] \<mapsto> Dir, [''file.txt''] \<mapsto> File (''abc'' @ [LF])] [''file.txt''] \<and>
   newline_terminated
     (file_text [[] \<mapsto> Dir, [''file.txt''] \<mapsto> File (''abc'' @ [LF])] [''file.txt'']) \<and>
   list_all (\<lambda>l. no_line_break (rstrip_newline l))
     [''pierwsza'', ''druga'' @ [LF], ''trzecia''] \<and>
   count_append_count [''file.txt''] [''pierwsza'', ''druga'' @ [LF], ''trzecia'']
     [[] \<mapsto> Dir, [''file.txt''] \<mapsto> File (''abc'' @ [LF])] = Inr (1, 4)"
proof -
  let ?fs = "[[] \<mapsto> Dir, [''file.txt''] \<mapsto> File (''abc'' @ [LF])]"
  let ?ls = "[''pierwsza'', ''druga'' @ [LF], ''trzecia'']"
  have l: "file_location ?fs [''file.txt'']"
    by (simp add: file_location_def is_file_def)
  have n: "newline_terminated (file_text ?fs [''file.txt''])"
    by (simp add: newline_terminated_def file_text_def)
  have b: "\<forall>l \<in> set ?ls. no_line_break (rstrip_newline l)"
    by (simp add: no_line_break_def rstrip_newline_def LF_def CR_def)
  have c: "count_lines [''file.txt''] ?fs = Inr (1, ?fs)"
    by (simp add: file_defs LF_def CR_def)
  from append_lines_count [OF l n b] obtain before fs0 where
    "count_lines [''file.txt''] ?fs = Inr (before, fs0)"
    "count_append_count [''file.txt''] ?ls ?fs = Inr (before, before + length ?ls)"
    by blast
  with c have "count_append_count [''file.txt''] ?ls ?fs = Inr (1, 4)" by simp
  moreover from b have "list_all (\<lambda>l. no_line_break (rstrip_newline l)) ?ls"
    by (simp only: list_all_iff)
  ultimately show ?thesis using l n by blast
qed

end
